theory Spec2Isabelle
  imports Main "HOL-Library.Word"
begin

section \<open>Tasks (pool.go, lines 16-61)\<close>

text \<open>
  A Go \<^verbatim>\<open>error\<close> is an interface value: either \<^verbatim>\<open>nil\<close> or some error. A non-nil error is
  modelled by its message, and \<^verbatim>\<open>nil\<close> by \<open>None\<close>.
\<close>

datatype error = Error string

text \<open>
  \<^verbatim>\<open>type TaskHeader struct { retries int; err error }\<close>. The counter is a Go \<^verbatim>\<open>int\<close> (at least
  32 bits). The field is unexported, starts at zero and only \<^verbatim>\<open>SetError\<close> changes it, by
  one, so a wrap-around needs more than two thousand million recorded errors on one
  task; it is modelled by an unbounded integer.
\<close>

record TaskHeader =
  retries :: int
  err :: "error option"

text \<open>The zero value \<^verbatim>\<open>TaskHeader{}\<close> of a freshly created task.\<close>

definition zero_TaskHeader :: TaskHeader where
  "zero_TaskHeader = \<lparr>retries = 0, err = None\<rparr>"

text \<open>
  \<^verbatim>\<open>
  func (t *TaskHeader) SetError(err error) {
      t.err = err
      if err != nil {
          t.retries++
      }
  }
  \<close>
\<close>

definition SetError :: "TaskHeader \<Rightarrow> error option \<Rightarrow> TaskHeader" where
  "SetError t e =
     (let t1 = t\<lparr>err := e\<rparr>
      in if e \<noteq> None then t1\<lparr>retries := retries t1 + 1\<rparr> else t1)"

definition ErrorCount :: "TaskHeader \<Rightarrow> int" where
  "ErrorCount t = retries t"

definition Err :: "TaskHeader \<Rightarrow> error option" where
  "Err t = err t"

definition Unwrap :: "TaskHeader \<Rightarrow> error option" where
  "Unwrap t = err t"

text \<open>A task is handled through a pointer; the pointer is modelled by a number.\<close>

type_synonym task = nat

section \<open>Configuration (pool.go, lines 63-76 and 124-133)\<close>

text \<open>
  \<^verbatim>\<open>PoolConfig\<close> with its three integer fields. The fourth field, \<^verbatim>\<open>Func\<close>, is the opaque
  user callable; the model represents it by the error value each of its calls returns
  (an argument of the step that executes a task, and the sequence of results in
  \<open>task_run\<close> below).
\<close>

record PoolConfig =
  LobbySize :: int
  Size :: int
  Retries :: int

text \<open>
  What the Go runtime supplies to \<^verbatim>\<open>NewPool\<close>: the value of \<^verbatim>\<open>runtime.GOMAXPROCS(0)\<close>, and
  the largest capacity \<^verbatim>\<open>make(chan Task, n)\<close> accepts (it panics with
  "makechan: size out of range" for a negative or too large \<^verbatim>\<open>n\<close>).
\<close>

record runtime =
  GOMAXPROCS :: int
  maxChanCap :: int

text \<open>
  Lines 125-133 of \<^verbatim>\<open>NewPool\<close>, three \<^verbatim>\<open>if\<close> statements in sequence:
  \<^verbatim>\<open>
  if cfg.Size < 1 { cfg.Size = 1 }
  if cfg.Size > runtime.GOMAXPROCS(0)*32 { cfg.Size = runtime.GOMAXPROCS(0) * 32 }
  if cfg.Retries < -1 { cfg.Retries = -1 }
  \<close>
\<close>

definition normalize :: "int \<Rightarrow> PoolConfig \<Rightarrow> PoolConfig" where
  "normalize procs c =
     (let c1 = (if Size c < 1 then c\<lparr>Size := 1\<rparr> else c);
          c2 = (if Size c1 > procs * 32 then c1\<lparr>Size := procs * 32\<rparr> else c1);
          c3 = (if Retries c2 < - 1 then c2\<lparr>Retries := - 1\<rparr> else c2)
      in c3)"

section \<open>Routing of an executed task (pool.go, lines 220-249)\<close>

text \<open>
  What \<^verbatim>\<open>pool.worker\<close> does with a task once the user function has returned \<open>e\<close>:
  \<^verbatim>\<open>
  task.SetError(err)
  if err != nil {
      select {
      case <-p.ctx.Done():
      default:
          if task.ErrorCount() >= p.cfg.Retries {
              go func() { ... p.errCh <- task ... }()
          } else {
              go func() { ... p.workersQ <- task ... }()
          }
      }
  } else {
      p.inflightWG.Done()
      p.inFlight.Add(-1)
  }
  \<close>
\<close>

datatype route =
    Completed      \<comment> \<open>no error: the in-flight counter is decremented\<close>
  | ToErrCh        \<comment> \<open>a goroutine offers the task to the error queue\<close>
  | ToWorkersQ     \<comment> \<open>a goroutine offers the task to the dispatch queue again\<close>
  | Abandoned      \<comment> \<open>the context is done: nothing is done with the task\<close>

definition worker_route ::
  "int \<Rightarrow> bool \<Rightarrow> TaskHeader \<Rightarrow> error option \<Rightarrow> TaskHeader \<times> route" where
  "worker_route R cancelled t e =
     (let t' = SetError t e
      in if e \<noteq> None then
           (if cancelled then (t', Abandoned)
            else if ErrorCount t' \<ge> R then (t', ToErrCh)
            else (t', ToWorkersQ))
         else (t', Completed))"

text \<open>
  The passes of one task through the worker loop while the context is not cancelled and
  every handoff is accepted: a task offered to the dispatch queue is received by a worker
  and executed again. \<open>f n\<close> is what the user function returns at its \<open>n\<close>-th call on this
  task (counted from 0). The result is the list of routes taken, in order, and the header
  the task ends with. The recursion ends because each failure adds one to the error count
  and a count that has reached the ceiling sends the task to the error queue.
\<close>

function task_run ::
  "int \<Rightarrow> (nat \<Rightarrow> error option) \<Rightarrow> nat \<Rightarrow> TaskHeader \<Rightarrow> route list \<times> TaskHeader" where
  "task_run R f n t =
     (let (t', r) = worker_route R False t (f n)
      in if r = ToWorkersQ then
           (let (rs, t'') = task_run R f (Suc n) t' in (ToWorkersQ # rs, t''))
         else ([r], t'))"
  by pat_completeness auto
termination
  by (relation "measure (\<lambda>(R, f, n, t). nat (R - retries t))")
     (auto simp: worker_route_def SetError_def ErrorCount_def Let_def split: if_splits)

section \<open>The pool and its goroutines (pool.go, lines 104-252)\<close>

text \<open>
  The pool is used from several goroutines at once, so its behaviour is given as an
  interleaving of atomic steps. Each step is one access to shared state: one channel
  operation, one operation on the mutex, a wait group or the \<^verbatim>\<open>sync.Once\<close>, or one read or
  write of a field of the pool. The counters \<^verbatim>\<open>inQ\<close>, \<^verbatim>\<open>inWork\<close> and \<^verbatim>\<open>inFlight\<close> are written
  but never read by the pool, and their updates are attached to a neighbouring step.
  Memory is sequentially consistent.
\<close>

text \<open>The three states of \<^verbatim>\<open>sync.Once\<close>: not started, its function running, done.\<close>

datatype once = Once_new | Once_running | Once_done

text \<open>The run-time panics and fatal errors the operations of the pool can raise.\<close>

datatype panic =
    Makechan_size_out_of_range
  | Send_on_closed_channel
  | Close_of_closed_channel
  | Close_of_nil_channel
  | Negative_WaitGroup_counter
  | Unlock_of_unlocked_mutex

text \<open>The forwarder goroutine started by \<^verbatim>\<open>lobby\<close> (lines 151-158).\<close>

datatype lobby_pc =
    L_range               \<comment> \<open>about to evaluate \<^verbatim>\<open>p.inputQ\<close>, the range expression of line 152\<close>
  | L_nil                 \<comment> \<open>ranging over a nil channel: blocked for ever\<close>
  | L_recv                \<comment> \<open>receiving from the admission channel\<close>
  | L_eval task           \<comment> \<open>line 154, about to evaluate \<^verbatim>\<open>p.workersQ\<close>\<close>
  | L_send task           \<comment> \<open>line 154, sending on the dispatch channel\<close>
  | L_send_nil task       \<comment> \<open>line 154, sending on a nil channel: blocked for ever\<close>
  | L_setnil              \<comment> \<open>the loop has ended; line 156 is next\<close>
  | L_unlock              \<comment> \<open>line 157 is next\<close>
  | L_done

text \<open>A worker goroutine (lines 214-252).\<close>

datatype worker_pc =
    W_range               \<comment> \<open>about to evaluate \<^verbatim>\<open>p.workersQ\<close>, the range expression of line 217\<close>
  | W_nil                 \<comment> \<open>ranging over a nil channel: blocked for ever\<close>
  | W_recv                \<comment> \<open>receiving from the dispatch channel\<close>
  | W_exec task           \<comment> \<open>holds a task; lines 218-250 are next\<close>
  | W_done                \<comment> \<open>the loop has ended and \<^verbatim>\<open>workersWG.Done()\<close> has run\<close>

text \<open>The goroutines a worker starts for a failed task (lines 227-234 and 237-243).\<close>

datatype handoff_pc =
    E_select task         \<comment> \<open>lines 228-233: in the select, offering the task on \<^verbatim>\<open>errCh\<close>\<close>
  | E_sent task           \<comment> \<open>the task was received; lines 231-232 are next\<close>
  | R_start task          \<comment> \<open>line 238: about to evaluate \<^verbatim>\<open>p.workersQ\<close> for the select\<close>
  | R_select task         \<comment> \<open>in the select, offering the task on the dispatch channel\<close>
  | R_select_nil task     \<comment> \<open>in the select with a nil channel: only the context can end it\<close>
  | H_done

text \<open>A goroutine of the caller, idle or inside a method of the pool.\<close>

datatype call_pc =
    Idle
  | Q_add task            \<comment> \<open>\<^verbatim>\<open>Queue\<close>: the test of line 175 passed; lines 176-178 are next\<close>
  | Q_eval task           \<comment> \<open>\<^verbatim>\<open>Queue\<close>: line 179, about to evaluate \<^verbatim>\<open>p.inputQ\<close>\<close>
  | Q_send task           \<comment> \<open>\<^verbatim>\<open>Queue\<close>: line 179, sending on the admission channel\<close>
  | Q_send_nil task       \<comment> \<open>\<^verbatim>\<open>Queue\<close>: line 179, sending on a nil channel: blocked for ever\<close>
  | S_blocked             \<comment> \<open>\<^verbatim>\<open>Shutdown\<close>: inside \<^verbatim>\<open>Once.Do\<close> while another call runs the body\<close>
  | S_close_input         \<comment> \<open>\<^verbatim>\<open>Shutdown\<close>: line 186 is next\<close>
  | S_nil_input           \<comment> \<open>\<^verbatim>\<open>Shutdown\<close>: line 187 is next\<close>
  | S_wait                \<comment> \<open>\<^verbatim>\<open>Shutdown\<close>: line 189, waiting for the in-flight wait group\<close>
  | S_close_workers       \<comment> \<open>\<^verbatim>\<open>Shutdown\<close>: line 190 is next\<close>
  | S_nil_workers         \<comment> \<open>\<^verbatim>\<open>Shutdown\<close>: line 191 is next\<close>
  | S_close_err           \<comment> \<open>\<^verbatim>\<open>Shutdown\<close>: line 192 is next\<close>
  | Wt_wait               \<comment> \<open>\<^verbatim>\<open>Wait\<close>: holds \<^verbatim>\<open>inputLock\<close>; line 211, waiting for the wait group\<close>
  | Wt_unlock             \<comment> \<open>\<^verbatim>\<open>Wait\<close>: the deferred \<^verbatim>\<open>Unlock\<close> of line 209 is next\<close>

text \<open>
  The state: the fields of \<^verbatim>\<open>pool\<close>, the three channels they point to, the headers of the
  tasks, and the goroutines. A channel field of the struct may be set to nil while the
  channel itself lives on in the goroutines that use it, so the field (\<open>inputQ_nil\<close>,
  \<open>workersQ_nil\<close>) and the channel (\<open>inputQ_buf\<close>, \<open>inputQ_closed\<close>, \<open>workersQ_closed\<close>,
  \<open>errCh_closed\<close>) are kept apart. \<open>workersQ\<close> and \<open>errCh\<close> are unbuffered.
\<close>

record pool =
  cfg :: PoolConfig
  inputQ_nil :: bool
  inputQ_cap :: nat
  inputQ_buf :: "task list"
  inputQ_closed :: bool
  workersQ_nil :: bool
  workersQ_closed :: bool
  errCh_closed :: bool
  workersWG :: int
  inflightWG :: int
  inputLock :: bool
  shutdownOnce :: once
  ctx_done :: bool
  inQ :: "32 word"
  inWork :: "32 word"
  inFlight :: "32 word"
  tasks :: "task \<Rightarrow> TaskHeader"
  lobbies :: "lobby_pc list"
  workers :: "worker_pc list"
  handoffs :: "handoff_pc list"
  callers :: "nat \<Rightarrow> call_pc"
  panicked :: "panic option"

text \<open>
  \<^verbatim>\<open>NewPool\<close> (lines 124-148). The context argument is represented by whether it is
  already done. The only operation that can fail is \<^verbatim>\<open>make(chan Task, cfg.LobbySize)\<close> of
  line 139. The tasks the caller will submit are freshly created, and every goroutine of
  the caller is idle.
\<close>

definition NewPool :: "runtime \<Rightarrow> bool \<Rightarrow> PoolConfig \<Rightarrow> panic + pool" where
  "NewPool rt parent_done c0 =
     (let c = normalize (GOMAXPROCS rt) c0
      in if LobbySize c < 0 \<or> maxChanCap rt < LobbySize c then Inl Makechan_size_out_of_range
         else Inr \<lparr>cfg = c,
                   inputQ_nil = False,
                   inputQ_cap = nat (LobbySize c),
                   inputQ_buf = [],
                   inputQ_closed = False,
                   workersQ_nil = False,
                   workersQ_closed = False,
                   errCh_closed = False,
                   workersWG = 0,
                   inflightWG = 0,
                   inputLock = False,
                   shutdownOnce = Once_new,
                   ctx_done = parent_done,
                   inQ = 0,
                   inWork = 0,
                   inFlight = 0,
                   tasks = (\<lambda>t. zero_TaskHeader),
                   lobbies = [],
                   workers = [],
                   handoffs = [],
                   callers = (\<lambda>c. Idle),
                   panicked = None\<rparr>)"

text \<open>A panic outside any \<^verbatim>\<open>recover\<close> ends the program.\<close>

definition crash :: "panic \<Rightarrow> pool \<Rightarrow> pool option" where
  "crash x s = Some (s\<lparr>panicked := Some x\<rparr>)"

text \<open>\<^verbatim>\<open>WaitGroup.Done()\<close> on the in-flight wait group, together with \<^verbatim>\<open>p.inFlight.Add(-1)\<close>.\<close>

definition inflight_done :: "pool \<Rightarrow> pool" where
  "inflight_done s =
     (if inflightWG s - 1 < 0 then s\<lparr>panicked := Some Negative_WaitGroup_counter\<rparr>
      else s\<lparr>inflightWG := inflightWG s - 1, inFlight := inFlight s - 1\<rparr>)"

text \<open>
  Line 250 of the worker, \<^verbatim>\<open>p.inWork.Add(-1)\<close>, and the return to the head of its loop;
  they are not reached after a panic.
\<close>

definition worker_next :: "nat \<Rightarrow> pool \<Rightarrow> pool" where
  "worker_next w s =
     (if panicked s = None
      then s\<lparr>inWork := inWork s - 1, workers := (workers s)[w := W_recv]\<rparr>
      else s)"

text \<open>
  The steps. A step of a caller's goroutine names the goroutine; a step of a goroutine of
  the pool names its position in \<open>lobbies\<close>, \<open>workers\<close> or \<open>handoffs\<close>. A step that moves a
  task names the task. \<open>Worker_exec w t e\<close> is worker \<open>w\<close> running lines 218-250 on task \<open>t\<close>
  with \<open>e\<close> the value \<^verbatim>\<open>p.f(task)\<close> returns. A send on an unbuffered channel and the matching
  receive are one step naming both goroutines.
\<close>

datatype label =
    Call_Run nat
  | Queue_call nat task
  | Queue_add nat task
  | Queue_eval nat task
  | Queue_send nat task
  | Queue_pass nat task nat
  | Queue_panic nat task
  | Shutdown_call nat
  | Shutdown_resume nat
  | Shutdown_close_input nat
  | Shutdown_nil_input nat
  | Shutdown_wait nat
  | Shutdown_close_workers nat
  | Shutdown_nil_workers nat
  | Shutdown_close_err nat
  | Call_Cancel nat
  | Parent_cancel
  | ErroredTask_recv nat nat task
  | ErroredTask_nil nat
  | Wait_lock nat
  | Wait_wait nat
  | Wait_unlock nat
  | Lobby_range nat
  | Lobby_recv nat
  | Lobby_exit nat
  | Lobby_eval nat task
  | Lobby_send nat task nat
  | Lobby_panic nat task
  | Lobby_setnil nat
  | Lobby_unlock nat
  | Worker_range nat
  | Worker_exec nat task "error option"
  | Worker_exit nat
  | Err_abandon nat task
  | Err_panic nat task
  | Err_done nat task
  | Retry_start nat task
  | Retry_abandon nat task
  | Retry_send nat task nat
  | Retry_panic nat task

text \<open>Whether goroutine \<open>i\<close> of a list of goroutines is at \<open>pc\<close>.\<close>

definition at :: "'a list \<Rightarrow> nat \<Rightarrow> 'a \<Rightarrow> bool" where
  "at xs i pc = (i < length xs \<and> xs ! i = pc)"

text \<open>
  The effect of each step; \<open>None\<close> when the step cannot be taken in the state (its goroutine
  is elsewhere, or blocked).
\<close>

fun act :: "label \<Rightarrow> pool \<Rightarrow> pool option" where
  \<comment> \<open>\<^verbatim>\<open>Run\<close>, lines 163-170: \<^verbatim>\<open>Lock\<close> blocks while the mutex is held; then the forwarder and
      \<^verbatim>\<open>cfg.Size\<close> workers are started.\<close>
  "act (Call_Run c) s =
     (if callers s c = Idle \<and> \<not> inputLock s then
        Some (s\<lparr>inputLock := True,
                lobbies := lobbies s @ [L_range],
                workers := workers s @ replicate (nat (Size (cfg s))) W_range,
                workersWG := workersWG s + int (nat (Size (cfg s)))\<rparr>)
      else None)"
  \<comment> \<open>\<^verbatim>\<open>Queue\<close>, line 175: \<^verbatim>\<open>if p.inputQ != nil\<close>; when it is nil the call returns.\<close>
| "act (Queue_call c t) s =
     (if callers s c = Idle then
        (if inputQ_nil s then Some s
         else Some (s\<lparr>callers := (callers s)(c := Q_add t)\<rparr>))
      else None)"
  \<comment> \<open>lines 176-178\<close>
| "act (Queue_add c t) s =
     (if callers s c = Q_add t then
        Some (s\<lparr>inQ := inQ s + 1, inFlight := inFlight s + 1,
                inflightWG := inflightWG s + 1,
                callers := (callers s)(c := Q_eval t)\<rparr>)
      else None)"
  \<comment> \<open>line 179: the channel operand of the send\<close>
| "act (Queue_eval c t) s =
     (if callers s c = Q_eval t then
        Some (s\<lparr>callers := (callers s)(c := if inputQ_nil s then Q_send_nil t else Q_send t)\<rparr>)
      else None)"
  \<comment> \<open>line 179: the send, into the buffer\<close>
| "act (Queue_send c t) s =
     (if callers s c = Q_send t \<and> \<not> inputQ_closed s
         \<and> length (inputQ_buf s) < inputQ_cap s then
        Some (s\<lparr>inputQ_buf := inputQ_buf s @ [t], callers := (callers s)(c := Idle)\<rparr>)
      else None)"
  \<comment> \<open>line 179: the send, straight to forwarder \<open>l\<close> waiting on the empty channel
      (line 152, with the \<^verbatim>\<open>p.inQ.Add(-1)\<close> of line 153)\<close>
| "act (Queue_pass c t l) s =
     (if callers s c = Q_send t \<and> \<not> inputQ_closed s \<and> inputQ_buf s = []
         \<and> at (lobbies s) l L_recv then
        Some (s\<lparr>lobbies := (lobbies s)[l := L_eval t], inQ := inQ s - 1,
                callers := (callers s)(c := Idle)\<rparr>)
      else None)"
  \<comment> \<open>line 179: the send, on a closed channel\<close>
| "act (Queue_panic c t) s =
     (if callers s c = Q_send t \<and> inputQ_closed s then crash Send_on_closed_channel s
      else None)"
  \<comment> \<open>\<^verbatim>\<open>Shutdown\<close>, line 185: \<^verbatim>\<open>shutdownOnce.Do\<close>\<close>
| "act (Shutdown_call c) s =
     (if callers s c = Idle then
        (case shutdownOnce s of
           Once_new \<Rightarrow> Some (s\<lparr>shutdownOnce := Once_running,
                                callers := (callers s)(c := S_close_input)\<rparr>)
         | Once_running \<Rightarrow> Some (s\<lparr>callers := (callers s)(c := S_blocked)\<rparr>)
         | Once_done \<Rightarrow> Some s)
      else None)"
| "act (Shutdown_resume c) s =
     (if callers s c = S_blocked \<and> shutdownOnce s = Once_done then
        Some (s\<lparr>callers := (callers s)(c := Idle)\<rparr>)
      else None)"
  \<comment> \<open>line 186: \<^verbatim>\<open>close(p.inputQ)\<close>\<close>
| "act (Shutdown_close_input c) s =
     (if callers s c = S_close_input then
        (if inputQ_nil s then crash Close_of_nil_channel s
         else if inputQ_closed s then crash Close_of_closed_channel s
         else Some (s\<lparr>inputQ_closed := True, callers := (callers s)(c := S_nil_input)\<rparr>))
      else None)"
  \<comment> \<open>line 187: \<^verbatim>\<open>p.inputQ = nil\<close>\<close>
| "act (Shutdown_nil_input c) s =
     (if callers s c = S_nil_input then
        Some (s\<lparr>inputQ_nil := True, callers := (callers s)(c := S_wait)\<rparr>)
      else None)"
  \<comment> \<open>line 189: \<^verbatim>\<open>p.inflightWG.Wait()\<close>\<close>
| "act (Shutdown_wait c) s =
     (if callers s c = S_wait \<and> inflightWG s = 0 then
        Some (s\<lparr>callers := (callers s)(c := S_close_workers)\<rparr>)
      else None)"
  \<comment> \<open>line 190: \<^verbatim>\<open>close(p.workersQ)\<close>\<close>
| "act (Shutdown_close_workers c) s =
     (if callers s c = S_close_workers then
        (if workersQ_nil s then crash Close_of_nil_channel s
         else if workersQ_closed s then crash Close_of_closed_channel s
         else Some (s\<lparr>workersQ_closed := True, callers := (callers s)(c := S_nil_workers)\<rparr>))
      else None)"
  \<comment> \<open>line 191: \<^verbatim>\<open>p.workersQ = nil\<close>\<close>
| "act (Shutdown_nil_workers c) s =
     (if callers s c = S_nil_workers then
        Some (s\<lparr>workersQ_nil := True, callers := (callers s)(c := S_close_err)\<rparr>)
      else None)"
  \<comment> \<open>line 192: \<^verbatim>\<open>close(p.errCh)\<close>; the body of \<^verbatim>\<open>Do\<close> ends and the call returns\<close>
| "act (Shutdown_close_err c) s =
     (if callers s c = S_close_err then
        (if errCh_closed s then crash Close_of_closed_channel s
         else Some (s\<lparr>errCh_closed := True, shutdownOnce := Once_done,
                      callers := (callers s)(c := Idle)\<rparr>))
      else None)"
  \<comment> \<open>\<^verbatim>\<open>Cancel\<close>, line 198, and the cancellation of the context given to \<^verbatim>\<open>NewPool\<close>\<close>
| "act (Call_Cancel c) s =
     (if callers s c = Idle then Some (s\<lparr>ctx_done := True\<rparr>) else None)"
| "act Parent_cancel s = Some (s\<lparr>ctx_done := True\<rparr>)"
  \<comment> \<open>\<^verbatim>\<open>ErroredTask\<close>, line 203, receives what error goroutine \<open>h\<close> sends (line 230)\<close>
| "act (ErroredTask_recv c h t) s =
     (if callers s c = Idle \<and> at (handoffs s) h (E_select t) \<and> \<not> errCh_closed s then
        Some (s\<lparr>handoffs := (handoffs s)[h := E_sent t]\<rparr>)
      else None)"
  \<comment> \<open>\<^verbatim>\<open>ErroredTask\<close>, line 203, on the closed channel: returns nil\<close>
| "act (ErroredTask_nil c) s =
     (if callers s c = Idle \<and> errCh_closed s then Some s else None)"
  \<comment> \<open>\<^verbatim>\<open>Wait\<close>, line 208: \<^verbatim>\<open>p.inputLock.Lock()\<close>\<close>
| "act (Wait_lock c) s =
     (if callers s c = Idle \<and> \<not> inputLock s then
        Some (s\<lparr>inputLock := True, callers := (callers s)(c := Wt_wait)\<rparr>)
      else None)"
  \<comment> \<open>line 211: \<^verbatim>\<open>p.inflightWG.Wait()\<close>\<close>
| "act (Wait_wait c) s =
     (if callers s c = Wt_wait \<and> inflightWG s = 0 then
        Some (s\<lparr>callers := (callers s)(c := Wt_unlock)\<rparr>)
      else None)"
  \<comment> \<open>line 209, deferred: \<^verbatim>\<open>p.inputLock.Unlock()\<close>; the call returns\<close>
| "act (Wait_unlock c) s =
     (if callers s c = Wt_unlock then
        (if inputLock s then Some (s\<lparr>inputLock := False, callers := (callers s)(c := Idle)\<rparr>)
         else crash Unlock_of_unlocked_mutex s)
      else None)"
  \<comment> \<open>forwarder, line 152: the range expression is evaluated once\<close>
| "act (Lobby_range l) s =
     (if at (lobbies s) l L_range then
        Some (s\<lparr>lobbies := (lobbies s)[l := if inputQ_nil s then L_nil else L_recv]\<rparr>)
      else None)"
  \<comment> \<open>line 152, a receive from the buffer, with line 153\<close>
| "act (Lobby_recv l) s =
     (if at (lobbies s) l L_recv then
        (case inputQ_buf s of
           [] \<Rightarrow> None
         | t # ts \<Rightarrow> Some (s\<lparr>inputQ_buf := ts, inQ := inQ s - 1,
                               lobbies := (lobbies s)[l := L_eval t]\<rparr>))
      else None)"
  \<comment> \<open>line 152: the channel is closed and empty, the loop ends\<close>
| "act (Lobby_exit l) s =
     (if at (lobbies s) l L_recv \<and> inputQ_buf s = [] \<and> inputQ_closed s then
        Some (s\<lparr>lobbies := (lobbies s)[l := L_setnil]\<rparr>)
      else None)"
  \<comment> \<open>line 154: the channel operand of the send\<close>
| "act (Lobby_eval l t) s =
     (if at (lobbies s) l (L_eval t) then
        Some (s\<lparr>lobbies := (lobbies s)[l := if workersQ_nil s then L_send_nil t else L_send t]\<rparr>)
      else None)"
  \<comment> \<open>line 154: the send, received by worker \<open>w\<close> (line 217)\<close>
| "act (Lobby_send l t w) s =
     (if at (lobbies s) l (L_send t) \<and> \<not> workersQ_closed s \<and> at (workers s) w W_recv then
        Some (s\<lparr>lobbies := (lobbies s)[l := L_recv], workers := (workers s)[w := W_exec t]\<rparr>)
      else None)"
| "act (Lobby_panic l t) s =
     (if at (lobbies s) l (L_send t) \<and> workersQ_closed s then crash Send_on_closed_channel s
      else None)"
  \<comment> \<open>line 156: \<^verbatim>\<open>p.inputQ = nil\<close>\<close>
| "act (Lobby_setnil l) s =
     (if at (lobbies s) l L_setnil then
        Some (s\<lparr>inputQ_nil := True, lobbies := (lobbies s)[l := L_unlock]\<rparr>)
      else None)"
  \<comment> \<open>line 157: \<^verbatim>\<open>p.inputLock.Unlock()\<close>\<close>
| "act (Lobby_unlock l) s =
     (if at (lobbies s) l L_unlock then
        (if inputLock s then Some (s\<lparr>inputLock := False, lobbies := (lobbies s)[l := L_done]\<rparr>)
         else crash Unlock_of_unlocked_mutex s)
      else None)"
  \<comment> \<open>worker, line 217: the range expression is evaluated once\<close>
| "act (Worker_range w) s =
     (if at (workers s) w W_range then
        Some (s\<lparr>workers := (workers s)[w := if workersQ_nil s then W_nil else W_recv]\<rparr>)
      else None)"
  \<comment> \<open>lines 218-250 on the task received\<close>
| "act (Worker_exec w t e) s =
     (if at (workers s) w (W_exec t) then
        (let (h, r) = worker_route (Retries (cfg s)) (ctx_done s) (tasks s t) e;
             s1 = s\<lparr>inWork := inWork s + 1, inQ := inQ s - 1, tasks := (tasks s)(t := h)\<rparr>
         in Some (worker_next w
              (case r of
                 Completed \<Rightarrow> inflight_done s1
               | ToErrCh \<Rightarrow> s1\<lparr>handoffs := handoffs s1 @ [E_select t]\<rparr>
               | ToWorkersQ \<Rightarrow> s1\<lparr>handoffs := handoffs s1 @ [R_start t]\<rparr>
               | Abandoned \<Rightarrow> s1)))
      else None)"
  \<comment> \<open>line 217: the channel is closed, the loop ends; line 215, deferred\<close>
| "act (Worker_exit w) s =
     (if at (workers s) w W_recv \<and> workersQ_closed s then
        (if workersWG s - 1 < 0 then crash Negative_WaitGroup_counter s
         else Some (s\<lparr>workersWG := workersWG s - 1, workers := (workers s)[w := W_done]\<rparr>))
      else None)"
  \<comment> \<open>error goroutine, line 229: the context is done\<close>
| "act (Err_abandon h t) s =
     (if at (handoffs s) h (E_select t) \<and> ctx_done s then
        Some (s\<lparr>handoffs := (handoffs s)[h := H_done]\<rparr>)
      else None)"
  \<comment> \<open>line 230 on the closed channel\<close>
| "act (Err_panic h t) s =
     (if at (handoffs s) h (E_select t) \<and> errCh_closed s then crash Send_on_closed_channel s
      else None)"
  \<comment> \<open>lines 231-232\<close>
| "act (Err_done h t) s =
     (if at (handoffs s) h (E_sent t) then
        (let s1 = inflight_done s
         in if panicked s1 = None then Some (s1\<lparr>handoffs := (handoffs s1)[h := H_done]\<rparr>)
            else Some s1)
      else None)"
  \<comment> \<open>retry goroutine, line 238: entering the select evaluates \<^verbatim>\<open>p.workersQ\<close>\<close>
| "act (Retry_start h t) s =
     (if at (handoffs s) h (R_start t) then
        Some (s\<lparr>handoffs := (handoffs s)[h := if workersQ_nil s then R_select_nil t
                                                   else R_select t]\<rparr>)
      else None)"
  \<comment> \<open>line 239: the context is done\<close>
| "act (Retry_abandon h t) s =
     (if (at (handoffs s) h (R_select t) \<or> at (handoffs s) h (R_select_nil t)) \<and> ctx_done s then
        Some (s\<lparr>handoffs := (handoffs s)[h := H_done]\<rparr>)
      else None)"
  \<comment> \<open>line 240: the send, received by worker \<open>w\<close> (line 217), with line 241\<close>
| "act (Retry_send h t w) s =
     (if at (handoffs s) h (R_select t) \<and> \<not> workersQ_closed s \<and> at (workers s) w W_recv then
        Some (s\<lparr>handoffs := (handoffs s)[h := H_done], workers := (workers s)[w := W_exec t],
                inQ := inQ s + 1\<rparr>)
      else None)"
| "act (Retry_panic h t) s =
     (if at (handoffs s) h (R_select t) \<and> workersQ_closed s then crash Send_on_closed_channel s
      else None)"

text \<open>A program that has panicked takes no further step.\<close>

definition step :: "label \<Rightarrow> pool \<Rightarrow> pool option" where
  "step l s = (if panicked s = None then act l s else None)"

text \<open>Running a schedule: \<open>None\<close> when one of its steps cannot be taken.\<close>

fun exec :: "label list \<Rightarrow> pool \<Rightarrow> pool option" where
  "exec [] s = Some s"
| "exec (l # ls) s = (case step l s of None \<Rightarrow> None | Some s' \<Rightarrow> exec ls s')"

section \<open>The passes of one task as steps of the pool\<close>

text \<open>
  The steps of the pool that carry task \<open>t\<close>, held by worker 0, along the routes of
  \<open>task_run\<close>: each execution by worker 0; after a failure below the ceiling the retry
  goroutine (number \<open>k\<close> of the goroutines started so far) handing the task back to
  worker 0; at the ceiling the error goroutine handing it to caller 2 in \<^verbatim>\<open>ErroredTask\<close>.
\<close>

fun pool_sched :: "task \<Rightarrow> (nat \<Rightarrow> error option) \<Rightarrow> route list \<Rightarrow> nat \<Rightarrow> nat \<Rightarrow> label list" where
  "pool_sched t f [] n k = []"
| "pool_sched t f (Completed # rs) n k = [Worker_exec 0 t (f n)]"
| "pool_sched t f (ToErrCh # rs) n k =
     [Worker_exec 0 t (f n), ErroredTask_recv 2 k t, Err_done k t]"
| "pool_sched t f (ToWorkersQ # rs) n k =
     [Worker_exec 0 t (f n), Retry_start k t, Retry_send k t 0] @ pool_sched t f rs (Suc n) (Suc k)"
| "pool_sched t f (Abandoned # rs) n k = [Worker_exec 0 t (f n)]"

text \<open>
  Worker 0 holds task \<open>t\<close>, \<open>k\<close> handoff goroutines have been started, the task is counted
  in flight, nothing is closed or cancelled, and caller 2 is idle.
\<close>

definition holds_task :: "task \<Rightarrow> nat \<Rightarrow> pool \<Rightarrow> bool" where
  "holds_task t k s =
     (panicked s = None \<and> \<not> ctx_done s \<and> \<not> workersQ_nil s \<and> \<not> workersQ_closed s
      \<and> \<not> errCh_closed s \<and> at (workers s) 0 (W_exec t) \<and> length (handoffs s) = k
      \<and> callers s 2 = Idle \<and> 1 \<le> inflightWG s)"

text \<open>
  \<^verbatim>\<open>Run\<close>; the forwarder and worker 0 reach their loops; caller 1 queues task 7, which the
  forwarder hands to worker 0.
\<close>

definition first_dispatch :: "label list" where
  "first_dispatch =
     [Call_Run 0, Lobby_range 0, Worker_range 0,
      Queue_call 1 7, Queue_add 1 7, Queue_eval 1 7, Queue_pass 1 7 0,
      Lobby_eval 0 7, Lobby_send 0 7 0]"

section \<open>Notions used to state the properties\<close>

text \<open>A caller is inside \<^verbatim>\<open>Wait\<close>, past the \<^verbatim>\<open>Lock\<close> of line 208.\<close>

definition in_Wait :: "call_pc \<Rightarrow> bool" where
  "in_Wait pc = (pc = Wt_wait \<or> pc = Wt_unlock)"

text \<open>The steps of \<^verbatim>\<open>Wait\<close> (lines 208, 211 and the deferred 209).\<close>

fun Wait_step :: "label \<Rightarrow> bool" where
  "Wait_step (Wait_lock c) = True"
| "Wait_step (Wait_wait c) = True"
| "Wait_step (Wait_unlock c) = True"
| "Wait_step _ = False"

text \<open>The forwarder has left its loop (lines 156-157 remain, or it has ended).\<close>

definition late :: "lobby_pc \<Rightarrow> bool" where
  "late pc = (pc = L_setnil \<or> pc = L_unlock \<or> pc = L_done)"






text \<open>
  The invariant of \<^verbatim>\<open>inputLock\<close>: the mutex is held by at most one of the callers inside
  \<^verbatim>\<open>Wait\<close> and the forwarders that have not unlocked it yet, it is locked while one of them
  holds it, and a forwarder leaves its loop only once the admission channel is closed.
\<close>

definition lock_inv :: "pool \<Rightarrow> bool" where
  "lock_inv s =
     ((\<forall>c. in_Wait (callers s c) \<longrightarrow>
           inputLock s \<and> (\<forall>l<length (lobbies s). lobbies s ! l = L_done)
           \<and> (\<forall>c'. in_Wait (callers s c') \<longrightarrow> c' = c))
    \<and> (\<forall>l<length (lobbies s). lobbies s ! l \<noteq> L_done \<longrightarrow>
           inputLock s \<and> (\<forall>l'<length (lobbies s). lobbies s ! l' \<noteq> L_done \<longrightarrow> l' = l))
    \<and> (\<forall>l<length (lobbies s). late (lobbies s ! l) \<longrightarrow> inputQ_closed s))"

text \<open>Conversely, the mutex is locked only while one of them holds it.\<close>

definition lock_owned :: "pool \<Rightarrow> bool" where
  "lock_owned s =
     (inputLock s \<longrightarrow>
        (\<exists>l<length (lobbies s). lobbies s ! l \<noteq> L_done) \<or> (\<exists>c. in_Wait (callers s c)))"

text \<open>The steps that touch what \<open>lock_inv\<close> speaks of, and what the other steps keep.\<close>

fun lock_step :: "label \<Rightarrow> bool" where
  "lock_step (Call_Run c) = True"
| "lock_step (Wait_lock c) = True"
| "lock_step (Wait_unlock c) = True"
| "lock_step (Queue_pass c t l) = True"
| "lock_step (Lobby_range l) = True"
| "lock_step (Lobby_recv l) = True"
| "lock_step (Lobby_exit l) = True"
| "lock_step (Lobby_eval l t) = True"
| "lock_step (Lobby_send l t w) = True"
| "lock_step (Lobby_setnil l) = True"
| "lock_step (Lobby_unlock l) = True"
| "lock_step _ = False"

definition same_lock :: "pool \<Rightarrow> pool \<Rightarrow> bool" where
  "same_lock s s' =
     (inputLock s' = inputLock s \<and> (inputQ_closed s \<longrightarrow> inputQ_closed s')
      \<and> lobbies s' = lobbies s
      \<and> (\<forall>c. in_Wait (callers s' c) = in_Wait (callers s c)))"




section \<open>Sample inputs\<close>

text \<open>A user function that fails at every call, and one that fails at its first \<open>K\<close> calls.\<close>

definition always_fails :: "nat \<Rightarrow> error option" where
  "always_fails n = Some (Error ''failed'')"

definition fails_first :: "nat \<Rightarrow> nat \<Rightarrow> error option" where
  "fails_first K n = (if n < K then Some (Error ''retry'') else None)"

text \<open>
  A runtime with eight processors, the configuration of the tests of the repository
  (pool\_test.go, lines 64-69), and the pool \<^verbatim>\<open>NewPool\<close> makes of it.
\<close>

definition sample_runtime :: runtime where
  "sample_runtime = \<lparr>GOMAXPROCS = 8, maxChanCap = 17592186044415\<rparr>"

definition test_config :: PoolConfig where
  "test_config = \<lparr>LobbySize = 0, Size = 2, Retries = 2\<rparr>"

definition test_pool :: pool where
  "test_pool = projr (NewPool sample_runtime False test_config)"

text \<open>A configuration with a retry ceiling below -1, and the pool made of it.\<close>

definition negative_config :: PoolConfig where
  "negative_config = \<lparr>LobbySize = 0, Size = 2, Retries = - 7\<rparr>"

definition negative_pool :: pool where
  "negative_pool = projr (NewPool sample_runtime False negative_config)"

text \<open>
  \<^verbatim>\<open>Run\<close>; the forwarder and both workers reach their loops; caller 1 queues task 7, which
  the forwarder hands to worker 0; the user function succeeds.
\<close>

definition one_task_done :: "label list" where
  "one_task_done =
     [Call_Run 0, Lobby_range 0, Worker_range 0, Worker_range 1,
      Queue_call 1 7, Queue_add 1 7, Queue_eval 1 7, Queue_pass 1 7 0,
      Lobby_eval 0 7, Lobby_send 0 7 0, Worker_exec 0 7 None]"


text \<open>
  \<^verbatim>\<open>Run\<close>, then \<^verbatim>\<open>Shutdown\<close> up to line 187, and the forwarder seeing the closed channel and
  unlocking the mutex.
\<close>

definition shutdown_begun :: "label list" where
  "shutdown_begun =
     [Call_Run 0, Lobby_range 0, Shutdown_call 1, Shutdown_close_input 1,
      Shutdown_nil_input 1, Lobby_exit 0, Lobby_setnil 0, Lobby_unlock 0]"

text \<open>
  \<^verbatim>\<open>Run\<close>, then \<^verbatim>\<open>Shutdown\<close> up to line 187 before the forwarder has evaluated the range
  expression of line 152, which it then finds nil.
\<close>

definition shutdown_first :: "label list" where
  "shutdown_first =
     [Call_Run 0, Shutdown_call 1, Shutdown_close_input 1, Shutdown_nil_input 1,
      Lobby_range 0]"


text \<open>
  \<^verbatim>\<open>Run\<close>; caller 1 is in \<^verbatim>\<open>Shutdown\<close> between lines 186 and 187 when caller 2 calls \<^verbatim>\<open>Queue\<close>.
\<close>

definition queue_races_shutdown :: "label list" where
  "queue_races_shutdown =
     [Call_Run 0, Lobby_range 0, Shutdown_call 1, Shutdown_close_input 1,
      Queue_call 2 7, Queue_add 2 7, Queue_eval 2 7, Queue_panic 2 7]"

section \<open>Unfolding the steps\<close>

lemmas step_defs = step_def at_def crash_def inflight_done_def worker_next_def Let_def
lemmas step_splits = if_splits once.splits list.splits prod.splits route.splits

lemmas eval_defs = step_def at_def crash_def inflight_done_def worker_next_def
  worker_route_def SetError_def
  ErrorCount_def NewPool_def sample_runtime_def test_config_def test_pool_def negative_config_def negative_pool_def
  normalize_def
  zero_TaskHeader_def Let_def

lemma test_pool_made: "NewPool sample_runtime False test_config = Inr test_pool"
  by (simp add: NewPool_def sample_runtime_def test_config_def test_pool_def negative_config_def negative_pool_def
  normalize_def)

lemma negative_pool_made: "NewPool sample_runtime False negative_config = Inr negative_pool"
  by (simp add: NewPool_def sample_runtime_def negative_config_def negative_pool_def
        normalize_def)

section \<open>Properties of the task header\<close>




lemma err_foldl: "err (foldl SetError t es) = (if es = [] then err t else last es)"
  by (induction es arbitrary: t) (auto simp: SetError_def Let_def)

text \<open>
  Claim C9. After any sequence of \<^verbatim>\<open>SetError\<close> calls \<^verbatim>\<open>Unwrap\<close> returns what \<^verbatim>\<open>Err\<close> returns; on
  a fresh header that is the error set last, and nil when none was set.
\<close>

theorem Unwrap_is_Err:
  "Unwrap (foldl SetError t es) = Err (foldl SetError t es)
   \<and> Err (foldl SetError zero_TaskHeader es) = (if es = [] then None else last es)"
  by (simp add: Unwrap_def Err_def err_foldl zero_TaskHeader_def)

section \<open>Properties of the construction\<close>

lemma normalize_fields:
  "LobbySize (normalize g c) = LobbySize c"
  "Retries (normalize g c) = (if Retries c < - 1 then - 1 else Retries c)"
  "1 \<le> g \<Longrightarrow> Size (normalize g c) =
     (if Size c < 1 then 1 else if Size c > g * 32 then g * 32 else Size c)"
  by (auto simp: normalize_def Let_def)




text \<open>
  Claim C10. \<^verbatim>\<open>NewPool\<close> does not normalize \<^verbatim>\<open>LobbySize\<close>: whenever it is negative the
  construction ends in the panic of \<^verbatim>\<open>make\<close>, whatever the other fields are, while
  \<^verbatim>\<open>Size\<close> and \<^verbatim>\<open>Retries\<close> have been clamped before.
\<close>

theorem NewPool_negative_lobby_panics:
  "LobbySize c < 0 \<Longrightarrow>
     NewPool rt pd c = Inl Makechan_size_out_of_range
     \<and> LobbySize (normalize (GOMAXPROCS rt) c) = LobbySize c
     \<and> - 1 \<le> Retries (normalize (GOMAXPROCS rt) c)
     \<and> (1 \<le> GOMAXPROCS rt \<longrightarrow> 1 \<le> Size (normalize (GOMAXPROCS rt) c)
           \<and> Size (normalize (GOMAXPROCS rt) c) \<le> GOMAXPROCS rt * 32)"
  by (simp add: NewPool_def Let_def normalize_fields)

theorem NewPool_negative_lobby_panics_witness:
  "NewPool sample_runtime True \<lparr>LobbySize = - 5, Size = 0, Retries = - 9\<rparr>
     = Inl Makechan_size_out_of_range
   \<and> 1 \<le> GOMAXPROCS sample_runtime
   \<and> Size (normalize (GOMAXPROCS sample_runtime) \<lparr>LobbySize = - 5, Size = 0, Retries = - 9\<rparr>)
       = 1
   \<and> Retries (normalize (GOMAXPROCS sample_runtime) \<lparr>LobbySize = - 5, Size = 0, Retries = - 9\<rparr>)
       = - 1"
  using NewPool_negative_lobby_panics
          [of "\<lparr>LobbySize = - 5, Size = 0, Retries = - 9\<rparr>" sample_runtime True]
  by (simp add: sample_runtime_def normalize_def)

section \<open>Properties of the retries\<close>

declare task_run.simps [simp del]

lemma task_run_retry:
  "worker_route R False t (f n) = (t', ToWorkersQ) \<Longrightarrow>
   task_run R f n t
     = (ToWorkersQ # fst (task_run R f (Suc n) t'), snd (task_run R f (Suc n) t'))"
  by (subst task_run.simps) (simp add: case_prod_beta)

lemma task_run_stop:
  "worker_route R False t (f n) = (t', r) \<Longrightarrow> r \<noteq> ToWorkersQ \<Longrightarrow>
   task_run R f n t = ([r], t')"
  by (subst task_run.simps) simp

lemma route_fail:
  "worker_route R False t (Some e) =
     (t\<lparr>err := Some e, retries := retries t + 1\<rparr>,
      if retries t + 1 \<ge> R then ToErrCh else ToWorkersQ)"
  by (simp add: worker_route_def SetError_def ErrorCount_def)

lemma route_ok: "worker_route R c t None = (t\<lparr>err := None\<rparr>, Completed)"
  by (simp add: worker_route_def SetError_def)



lemmas run_simps = task_run.simps worker_route_def SetError_def ErrorCount_def
  zero_TaskHeader_def always_fails_def fails_first_def







text \<open>
  Claim C3 fails as stated: with the retry ceiling -1 that \<^verbatim>\<open>NewPool\<close> makes of -7, a task
  that fails is not resubmitted; it is offered to the error queue at its first failure.
  In the pool made of that configuration, the worker that executes the failing task
  starts the goroutine of lines 227-234 (the error queue), not that of lines 237-243.
\<close>

theorem unbounded_retries_counterexample:
  "Retries (cfg negative_pool) = - 1
   \<and> worker_route (Retries (cfg negative_pool)) False zero_TaskHeader (Some (Error ''failed''))
     = (\<lparr>retries = 1, err = Some (Error ''failed'')\<rparr>, ToErrCh)
   \<and> task_run (- 1) always_fails 0 zero_TaskHeader
     = ([ToErrCh], \<lparr>retries = 1, err = Some (Error ''failed'')\<rparr>)
   \<and> exec (first_dispatch @ [Worker_exec 0 7 (Some (Error ''failed''))]) negative_pool \<noteq> None
   \<and> handoffs (the (exec (first_dispatch @ [Worker_exec 0 7 (Some (Error ''failed''))])
                        negative_pool))
       = [E_select 7]"
  by (simp add: run_simps first_dispatch_def eval_defs numeral_2_eq_2)

text \<open>
  Claim C3, amended. When the configured retry ceiling is -1 or below, the pool is built
  with ceiling -1, and then a task whose execution fails while the context is not
  cancelled is never resubmitted to the dispatch queue: it is offered to the error queue
  at once, whatever its error count.
\<close>

theorem negative_ceiling_never_retries:
  assumes "NewPool rt pd c = Inr p" and "Retries c \<le> - 1" and "0 \<le> ErrorCount t"
  shows "Retries (cfg p) = - 1
     \<and> worker_route (Retries (cfg p)) False t (Some e) = (SetError t (Some e), ToErrCh)
     \<and> (f n \<noteq> None \<longrightarrow> fst (task_run (Retries (cfg p)) f n t) = [ToErrCh])"
proof -
  from assms(1) have "cfg p = normalize (GOMAXPROCS rt) c"
    by (auto simp: NewPool_def Let_def split: if_splits)
  with assms(2) have R: "Retries (cfg p) = - 1"
    by (auto simp: normalize_fields)
  have wr: "worker_route (- 1) False t (Some e') = (SetError t (Some e'), ToErrCh)" for e'
    using assms(3) by (simp add: worker_route_def SetError_def ErrorCount_def)
  have "fst (task_run (- 1) f n t) = [ToErrCh]" if "f n \<noteq> None"
  proof -
    from that obtain e' where "f n = Some e'" by auto
    then have "worker_route (- 1) False t (f n) = (SetError t (Some e'), ToErrCh)"
      using wr by simp
    then have "task_run (- 1) f n t = ([ToErrCh], SetError t (Some e'))"
      by (rule task_run_stop [where f = f and n = n]) simp
    then show ?thesis by simp
  qed
  with R wr show ?thesis by simp
qed

theorem negative_ceiling_never_retries_witness:
  "Retries (cfg (projr (NewPool sample_runtime False \<lparr>LobbySize = 0, Size = 2, Retries = - 7\<rparr>)))
     = - 1
   \<and> fst (task_run
        (Retries (cfg (projr (NewPool sample_runtime False
                                \<lparr>LobbySize = 0, Size = 2, Retries = - 7\<rparr>))))
        always_fails 0 zero_TaskHeader) = [ToErrCh]"
  using negative_ceiling_never_retries
          [where rt = sample_runtime and pd = False
             and c = "\<lparr>LobbySize = 0, Size = 2, Retries = - 7\<rparr>"
             and p = "projr (NewPool sample_runtime False \<lparr>LobbySize = 0, Size = 2, Retries = - 7\<rparr>)"
             and t = zero_TaskHeader and f = always_fails and n = 0]
  by (simp add: NewPool_def sample_runtime_def normalize_def zero_TaskHeader_def
        ErrorCount_def always_fails_def)

section \<open>Properties of the interleavings\<close>

lemma exec_append:
  "exec (xs @ ys) s = (case exec xs s of None \<Rightarrow> None | Some s' \<Rightarrow> exec ys s')"
  by (induction xs arbitrary: s) (auto split: option.splits)



lemma NewPool_fields:
  assumes "NewPool rt pd c = Inr p"
  shows "lobbies p = []" and "callers p = (\<lambda>c. Idle)" and "shutdownOnce p = Once_new"
    and "\<not> inputQ_nil p" and "\<not> inputQ_closed p" and "panicked p = None"
  using assms by (auto simp: NewPool_def Let_def split: if_splits)

subsection \<open>The admission field, once nil, stays nil\<close>

lemma nil_mono: "step l s = Some s' \<Longrightarrow> inputQ_nil s \<Longrightarrow> inputQ_nil s'"
  by (cases l; auto simp: step_defs split: step_splits)

lemma nil_set: "step (Shutdown_nil_input k) s = Some s' \<Longrightarrow> inputQ_nil s'"
  by (auto simp: step_defs split: step_splits)

lemma exec_nil:
  "exec sched s0 = Some s \<Longrightarrow> inputQ_nil s0 \<or> Shutdown_nil_input k \<in> set sched \<Longrightarrow>
   inputQ_nil s"
proof (induction sched arbitrary: s0)
  case Nil
  then show ?case by simp
next
  case (Cons l ls)
  from Cons.prems(1) obtain s1 where s1: "step l s0 = Some s1" "exec ls s1 = Some s"
    by (auto split: option.splits)
  have "inputQ_nil s1 \<or> Shutdown_nil_input k \<in> set ls"
    using Cons.prems(2) s1(1) nil_mono nil_set by auto
  with s1(2) show ?case by (rule Cons.IH)
qed

text \<open>
  Claim C7. Once \<^verbatim>\<open>Shutdown\<close> has executed lines 186-187 (the admission channel is closed
  and the field \<^verbatim>\<open>p.inputQ\<close> is nil), in whatever way the goroutines have interleaved
  before and since, a call of \<^verbatim>\<open>Queue\<close> by an idle caller returns at once and leaves the
  whole state as it is: no panic, the task in no queue, and the counters \<^verbatim>\<open>inQ\<close>,
  \<^verbatim>\<open>inFlight\<close> and \<^verbatim>\<open>inflightWG\<close> unchanged.
\<close>

theorem Queue_after_Shutdown_is_noop:
  assumes "NewPool rt pd c = Inr p" and "exec sched p = Some s"
    and "Shutdown_nil_input k \<in> set sched"
    and "callers s q = Idle" and "panicked s = None"
  shows "step (Queue_call q t) s = Some s"
proof -
  have "inputQ_nil s"
    using assms(2,3) by (intro exec_nil [where k = k]) auto
  with assms(4,5) show ?thesis
    by (simp add: step_def)
qed

theorem Queue_after_Shutdown_is_noop_witness:
  "exec shutdown_begun test_pool \<noteq> None
   \<and> step (Queue_call 2 7) (the (exec shutdown_begun test_pool))
       = Some (the (exec shutdown_begun test_pool))"
proof -
  have e: "exec shutdown_begun test_pool = Some (the (exec shutdown_begun test_pool))"
    by (simp add: shutdown_begun_def eval_defs)
  have i: "Shutdown_nil_input 1 \<in> set shutdown_begun"
    by (simp add: shutdown_begun_def)
  have c: "callers (the (exec shutdown_begun test_pool)) 2 = Idle"
    by (simp add: shutdown_begun_def eval_defs)
  have a: "panicked (the (exec shutdown_begun test_pool)) = None"
    by (simp add: shutdown_begun_def eval_defs)
  from e have "exec shutdown_begun test_pool \<noteq> None"
    by (cases "exec shutdown_begun test_pool") auto
  then show ?thesis
    using Queue_after_Shutdown_is_noop [OF test_pool_made e i c a, of 7] by (rule conjI)
qed

text \<open>
  The hypothesis on line 187 is needed: a call of \<^verbatim>\<open>Queue\<close> that races with \<^verbatim>\<open>Shutdown\<close> and
  tests \<^verbatim>\<open>p.inputQ\<close> between lines 186 and 187 goes on to send on the closed channel.
\<close>

lemma Queue_between_lines_186_and_187:
  "exec queue_races_shutdown test_pool \<noteq> None
   \<and> panicked (the (exec queue_races_shutdown test_pool)) = Some Send_on_closed_channel"
  by (simp add: queue_races_shutdown_def eval_defs)

subsection \<open>One task in the pool\<close>

text \<open>
  The passes of \<open>task_run\<close> are steps of the pool: for every configuration and
  every behaviour of the user function there is an interleaving in which the task takes
  the routes of \<open>task_run\<close>, ends with the header \<open>task_run\<close> computes, and is no longer in
  flight.
\<close>

lemma round_ok:
  assumes "holds_task t k s"
  shows "\<exists>s'. exec [Worker_exec 0 t None] s = Some s' \<and> panicked s' = None
      \<and> tasks s' t = (tasks s t)\<lparr>err := None\<rparr> \<and> inflightWG s' = inflightWG s - 1
      \<and> handoffs s' = handoffs s"
  using assms
  by (auto simp: holds_task_def step_defs worker_route_def SetError_def)

lemma round_err:
  assumes "holds_task t k s" and "Retries (cfg s) \<le> retries (tasks s t) + 1"
  shows "\<exists>s'. exec [Worker_exec 0 t (Some e), ErroredTask_recv 2 k t, Err_done k t] s = Some s'
      \<and> panicked s' = None
      \<and> tasks s' t = (tasks s t)\<lparr>err := Some e, retries := retries (tasks s t) + 1\<rparr>
      \<and> inflightWG s' = inflightWG s - 1
      \<and> handoffs s' = handoffs s @ [H_done]"
  using assms
  by (auto simp: holds_task_def step_defs worker_route_def SetError_def ErrorCount_def nth_append)

lemma round_retry:
  assumes "holds_task t k s" and "retries (tasks s t) + 1 < Retries (cfg s)"
  shows "\<exists>s'. exec [Worker_exec 0 t (Some e), Retry_start k t, Retry_send k t 0] s = Some s'
      \<and> holds_task t (Suc k) s'
      \<and> tasks s' t = (tasks s t)\<lparr>err := Some e, retries := retries (tasks s t) + 1\<rparr>
      \<and> inflightWG s' = inflightWG s \<and> cfg s' = cfg s"
  using assms
  by (auto simp: holds_task_def step_defs worker_route_def SetError_def ErrorCount_def nth_append)

lemma task_run_in_pool:
  "holds_task t k s \<Longrightarrow> tasks s t = h \<Longrightarrow> Retries (cfg s) = R \<Longrightarrow>
   \<exists>s'. exec (pool_sched t f (fst (task_run R f n h)) n k) s = Some s'
      \<and> panicked s' = None \<and> tasks s' t = snd (task_run R f n h)
      \<and> inflightWG s' = inflightWG s - 1"
proof (induction R f n h arbitrary: s k rule: task_run.induct)
  case (1 R f n h)
  show ?case
  proof (cases "f n")
    case None
    then have "worker_route R False h (f n) = (h\<lparr>err := None\<rparr>, Completed)"
      by (simp add: route_ok)
    then have run: "task_run R f n h = ([Completed], h\<lparr>err := None\<rparr>)"
      by (rule task_run_stop [where f = f and n = n]) simp
    from round_ok [OF "1.prems"(1)] "1.prems"(2) show ?thesis
      by (simp add: run None del: exec.simps) blast
  next
    case (Some e)
    let ?h' = "h\<lparr>err := Some e, retries := retries h + 1\<rparr>"
    show ?thesis
    proof (cases "R \<le> retries h + 1")
      case True
      then have "worker_route R False h (f n) = (?h', ToErrCh)"
        by (simp add: Some route_fail)
      then have run: "task_run R f n h = ([ToErrCh], ?h')"
        by (rule task_run_stop [where f = f and n = n]) simp
      from True "1.prems" have "Retries (cfg s) \<le> retries (tasks s t) + 1" by simp
      from round_err [OF "1.prems"(1) this, of e] "1.prems"(2) show ?thesis
        by (simp add: run Some del: exec.simps) blast
    next
      case False
      then have wr: "worker_route R False h (f n) = (?h', ToWorkersQ)"
        by (simp add: Some route_fail)
      from False "1.prems" have "retries (tasks s t) + 1 < Retries (cfg s)" by simp
      from round_retry [OF "1.prems"(1) this, of e] "1.prems"(2,3) Some
      obtain s1 where s1: "exec [Worker_exec 0 t (f n), Retry_start k t, Retry_send k t 0] s = Some s1"
          "holds_task t (Suc k) s1" "tasks s1 t = ?h'" "inflightWG s1 = inflightWG s"
          "Retries (cfg s1) = R"
        by auto
      from "1.IH" [OF refl wr [symmetric] refl s1(2,3,5)]
      obtain s' where s': "exec (pool_sched t f (fst (task_run R f (Suc n) ?h')) (Suc n) (Suc k)) s1 = Some s'"
          "panicked s' = None" "tasks s' t = snd (task_run R f (Suc n) ?h')"
          "inflightWG s' = inflightWG s1 - 1"
        by blast
      have "exec ([Worker_exec 0 t (f n), Retry_start k t, Retry_send k t 0]
                  @ pool_sched t f (fst (task_run R f (Suc n) ?h')) (Suc n) (Suc k)) s = Some s'"
        using s1(1) s'(1) by (simp only: exec_append option.case)
      then have "exec (pool_sched t f (fst (task_run R f n h)) n k) s = Some s'"
        by (simp add: task_run_retry [where f = f and n = n, OF wr] del: exec.simps)
      with s' s1(4) show ?thesis
        by (simp add: task_run_retry [where f = f and n = n, OF wr])
    qed
  qed
qed

lemma first_dispatch_ready:
  assumes "NewPool rt False c = Inr p" and "1 \<le> GOMAXPROCS rt"
  shows "\<exists>s. exec first_dispatch p = Some s \<and> holds_task 7 0 s
      \<and> tasks s 7 = zero_TaskHeader \<and> cfg s = cfg p \<and> inflightWG s = 1"
proof -
  from assms have "1 \<le> Size (cfg p)"
    by (auto simp: NewPool_def Let_def normalize_fields split: if_splits)
  then obtain m where m: "nat (Size (cfg p)) = Suc m"
    by (cases "nat (Size (cfg p))") auto
  from assms(1) show ?thesis
    by (auto simp: NewPool_def first_dispatch_def holds_task_def step_defs m
             split: if_splits)
qed

lemma task_run_is_a_run_of_the_pool:
  assumes "NewPool rt False c = Inr p" and "1 \<le> GOMAXPROCS rt"
  shows "\<exists>s. exec (first_dispatch
                  @ pool_sched 7 f (fst (task_run (Retries (cfg p)) f 0 zero_TaskHeader)) 0 0) p
               = Some s
      \<and> panicked s = None
      \<and> tasks s 7 = snd (task_run (Retries (cfg p)) f 0 zero_TaskHeader)
      \<and> inflightWG s = 0"
proof -
  from first_dispatch_ready [OF assms] obtain s1 where
    s1: "exec first_dispatch p = Some s1" "holds_task 7 0 s1" "tasks s1 7 = zero_TaskHeader"
      "cfg s1 = cfg p" "inflightWG s1 = 1"
    by blast
  from s1(4) have R: "Retries (cfg s1) = Retries (cfg p)" by simp
  from task_run_in_pool [OF s1(2,3) R, of f 0] s1(1,5) show ?thesis
    by (auto simp: exec_append)
qed

subsection \<open>The input lock\<close>

lemma lock_frame: "\<not> lock_step l \<Longrightarrow> step l s = Some s' \<Longrightarrow> same_lock s s'"
  by (cases l; auto simp: step_defs same_lock_def in_Wait_def split: step_splits)

lemma lock_inv_frame: "lock_inv s \<Longrightarrow> same_lock s s' \<Longrightarrow> lock_inv s'"
  unfolding lock_inv_def same_lock_def by simp

lemma lock_inv_relevant:
  "lock_step l \<Longrightarrow> lock_inv s \<Longrightarrow> step l s = Some s' \<Longrightarrow> lock_inv s'"
  by (cases l; simp;
      auto simp: step_defs lock_inv_def in_Wait_def late_def nth_list_update nth_append
           split: step_splits)

lemma lock_inv_step: "lock_inv s \<Longrightarrow> step l s = Some s' \<Longrightarrow> lock_inv s'"
  using lock_frame lock_inv_frame lock_inv_relevant by blast

lemma lock_inv_exec: "lock_inv s0 \<Longrightarrow> exec sched s0 = Some s \<Longrightarrow> lock_inv s"
proof (induction sched arbitrary: s0)
  case Nil
  then show ?case by simp
next
  case (Cons l ls)
  from Cons.prems(2) obtain s1 where s1: "step l s0 = Some s1" "exec ls s1 = Some s"
    by (auto split: option.splits)
  from Cons.prems(1) s1(1) have "lock_inv s1" by (rule lock_inv_step)
  then show ?case using s1(2) by (rule Cons.IH)
qed

lemma lock_inv_init: "NewPool rt pd c = Inr p \<Longrightarrow> lock_inv p"
  by (auto simp: lock_inv_def NewPool_def Let_def in_Wait_def split: if_splits)

lemma lock_owned_frame: "lock_owned s \<Longrightarrow> same_lock s s' \<Longrightarrow> lock_owned s'"
  unfolding lock_owned_def same_lock_def by simp

lemma lock_owned_relevant:
  "lock_step l \<Longrightarrow> lock_owned s \<Longrightarrow> step l s = Some s' \<Longrightarrow> lock_owned s'"
  by (cases l; simp;
      auto simp: step_defs lock_owned_def in_Wait_def nth_list_update nth_append
           split: step_splits)

lemma lock_owned_step: "lock_owned s \<Longrightarrow> step l s = Some s' \<Longrightarrow> lock_owned s'"
  using lock_frame lock_owned_frame lock_owned_relevant by blast

lemma lock_owned_exec: "lock_owned s0 \<Longrightarrow> exec sched s0 = Some s \<Longrightarrow> lock_owned s"
proof (induction sched arbitrary: s0)
  case Nil
  then show ?case by simp
next
  case (Cons l ls)
  from Cons.prems(2) obtain s1 where s1: "step l s0 = Some s1" "exec ls s1 = Some s"
    by (auto split: option.splits)
  from Cons.prems(1) s1(1) have "lock_owned s1" by (rule lock_owned_step)
  then show ?case using s1(2) by (rule Cons.IH)
qed

lemma lock_owned_init: "NewPool rt pd c = Inr p \<Longrightarrow> lock_owned p"
  by (auto simp: lock_owned_def NewPool_def Let_def split: if_splits)

lemma lobbies_stay: "step l s = Some s' \<Longrightarrow> lobbies s \<noteq> [] \<Longrightarrow> lobbies s' \<noteq> []"
  by (cases l; auto simp: step_defs split: step_splits)

lemma lobbies_Run: "step (Call_Run r) s = Some s' \<Longrightarrow> lobbies s' \<noteq> []"
  by (auto simp: step_defs split: step_splits)

lemma exec_Run:
  "exec sched s0 = Some s \<Longrightarrow> lobbies s0 \<noteq> [] \<or> Call_Run r \<in> set sched \<Longrightarrow>
   lobbies s \<noteq> []"
proof (induction sched arbitrary: s0)
  case Nil
  then show ?case by simp
next
  case (Cons l ls)
  from Cons.prems(1) obtain s1 where s1: "step l s0 = Some s1" "exec ls s1 = Some s"
    by (auto split: option.splits)
  have "lobbies s1 \<noteq> [] \<or> Call_Run r \<in> set ls"
    using Cons.prems(2) s1(1) lobbies_stay lobbies_Run by auto
  with s1(2) show ?case by (rule Cons.IH)
qed

text \<open>
  While a forwarder exists and the admission channel is open, the mutex is held and no
  caller is inside \<^verbatim>\<open>Wait\<close>.
\<close>

lemma lock_held:
  assumes inv: "lock_inv s" and run: "lobbies s \<noteq> []" and "open": "\<not> inputQ_closed s"
  shows "inputLock s" and "\<not> in_Wait (callers s k)"
proof -
  from run have len: "0 < length (lobbies s)" by simp
  with inv "open" have "\<not> late (lobbies s ! 0)"
    unfolding lock_inv_def by blast
  then have live: "lobbies s ! 0 \<noteq> L_done" by (auto simp: late_def)
  with inv len show "inputLock s"
    unfolding lock_inv_def by blast
  from inv len live show "\<not> in_Wait (callers s k)"
    unfolding lock_inv_def by blast
qed

text \<open>The mutex is free exactly when nobody holds it.\<close>

lemma lock_free_iff:
  assumes "lock_inv s" and "lock_owned s"
  shows "\<not> inputLock s \<longleftrightarrow>
     (\<forall>l<length (lobbies s). lobbies s ! l = L_done) \<and> (\<forall>c. \<not> in_Wait (callers s c))"
proof
  assume "\<not> inputLock s"
  with assms(1) show "(\<forall>l<length (lobbies s). lobbies s ! l = L_done)
      \<and> (\<forall>c. \<not> in_Wait (callers s c))"
    unfolding lock_inv_def by blast
next
  assume "(\<forall>l<length (lobbies s). lobbies s ! l = L_done) \<and> (\<forall>c. \<not> in_Wait (callers s c))"
  with assms(2) show "\<not> inputLock s"
    unfolding lock_owned_def by blast
qed

text \<open>A forwarder that ranges over the nil field stays where it is.\<close>

lemma nil_range_stays:
  "step l' s = Some s' \<Longrightarrow> at (lobbies s) l L_nil \<Longrightarrow> at (lobbies s') l L_nil"
  by (cases l'; auto simp: step_defs nth_list_update nth_append split: step_splits)

lemma exec_nil_range:
  "exec rest s = Some s2 \<Longrightarrow> at (lobbies s) l L_nil \<Longrightarrow> at (lobbies s2) l L_nil"
proof (induction rest arbitrary: s)
  case Nil
  then show ?case by simp
next
  case (Cons l' ls)
  from Cons.prems(1) obtain s1 where s1: "step l' s = Some s1" "exec ls s1 = Some s2"
    by (auto split: option.splits)
  from s1(1) Cons.prems(2) have "at (lobbies s1) l L_nil" by (rule nil_range_stays)
  with s1(2) show ?case by (rule Cons.IH)
qed

lemma Wait_step_enabled:
  "Wait_step l \<Longrightarrow> step l s = Some s' \<Longrightarrow> \<not> inputLock s \<or> (\<exists>k. in_Wait (callers s k))"
  by (cases l) (auto simp: step_defs in_Wait_def split: if_splits)

lemma Wait_step_frame:
  "Wait_step l \<Longrightarrow> step l s = Some s' \<Longrightarrow>
     inputQ_closed s' = inputQ_closed s \<and> workersQ_closed s' = workersQ_closed s
     \<and> errCh_closed s' = errCh_closed s
     \<and> inputQ_nil s' = inputQ_nil s \<and> workersQ_nil s' = workersQ_nil s
     \<and> ((\<exists>k. l = Wait_wait k) \<longrightarrow> inflightWG s = 0)"
  by (cases l) (auto simp: step_defs split: if_splits)

lemma Wait_step_no_panic:
  assumes "lock_inv s" and "Wait_step l" and "step l s = Some s'"
  shows "panicked s' = None"
proof (cases l)
  case (Wait_unlock k)
  with assms(3) have "callers s k = Wt_unlock" and "panicked s = None"
    by (auto simp: step_defs split: if_splits)
  moreover from this(1) assms(1) have "inputLock s"
    unfolding lock_inv_def in_Wait_def by blast
  ultimately show ?thesis using assms(3) Wait_unlock
    by (auto simp: step_defs split: if_splits)
qed (use assms(2,3) in \<open>auto simp: step_defs split: if_splits\<close>)

text \<open>The three steps of a call of \<^verbatim>\<open>Wait\<close>, taken without interruption.\<close>

lemma Wait_lock_step:
  "panicked s = None \<Longrightarrow> callers s k = Idle \<Longrightarrow>
   step (Wait_lock k) s
     = (if inputLock s then None
        else Some (s\<lparr>inputLock := True, callers := (callers s)(k := Wt_wait)\<rparr>))"
  by (simp add: step_def)

lemma Wait_wait_step:
  "panicked s = None \<Longrightarrow>
   step (Wait_wait k) (s\<lparr>inputLock := True, callers := (callers s)(k := Wt_wait)\<rparr>)
     = (if inflightWG s = 0
        then Some (s\<lparr>inputLock := True, callers := (callers s)(k := Wt_unlock)\<rparr>)
        else None)"
  by (simp add: step_def)

lemma Wait_unlock_step:
  "panicked s = None \<Longrightarrow>
   step (Wait_unlock k) (s\<lparr>inputLock := True, callers := (callers s)(k := Wt_unlock)\<rparr>)
     = Some (s\<lparr>inputLock := False, callers := (callers s)(k := Idle)\<rparr>)"
  by (simp add: step_def)

lemma Wait_restores:
  assumes "callers s k = Idle" and "\<not> inputLock s"
  shows "s\<lparr>inputLock := False, callers := (callers s)(k := Idle)\<rparr> = s"
proof -
  have "(callers s)(k := Idle) = callers s"
    using assms(1) by (simp add: fun_upd_idem)
  moreover have "s\<lparr>inputLock := inputLock s, callers := callers s\<rparr> = s"
    by simp
  ultimately show ?thesis using assms(2) by simp
qed

lemma Wait_runs:
  assumes "panicked s = None" and "callers s k = Idle"
  shows "exec [Wait_lock k, Wait_wait k, Wait_unlock k] s
           = (if \<not> inputLock s \<and> inflightWG s = 0 then Some s else None)"
proof (cases "inputLock s")
  case True
  then show ?thesis
    by (simp add: Wait_lock_step [OF assms])
next
  case False
  show ?thesis
  proof (cases "inflightWG s = 0")
    case True
    with False show ?thesis
      by (simp add: Wait_lock_step [OF assms] Wait_wait_step [OF assms(1)]
            Wait_unlock_step [OF assms(1)] Wait_restores [OF assms(2)])
  next
    case False
    with \<open>\<not> inputLock s\<close> show ?thesis
      by (simp add: Wait_lock_step [OF assms] Wait_wait_step [OF assms(1)])
  qed
qed

text \<open>
  Claim C4 fails as stated. After \<^verbatim>\<open>Run\<close>, with the one task queued so far executed
  successfully, the in-flight wait group at zero and \<^verbatim>\<open>Shutdown\<close> never called, the forwarder
  and the workers are all waiting for input, and a call of \<^verbatim>\<open>Wait\<close> cannot pass its first
  statement: \<^verbatim>\<open>Run\<close> has locked \<^verbatim>\<open>inputLock\<close>, and only the forwarder unlocks it, after the
  admission channel is closed.
\<close>

theorem Wait_blocked_counterexample:
  "exec one_task_done test_pool \<noteq> None
   \<and> inflightWG (the (exec one_task_done test_pool)) = 0
   \<and> inputQ_buf (the (exec one_task_done test_pool)) = []
   \<and> handoffs (the (exec one_task_done test_pool)) = []
   \<and> lobbies (the (exec one_task_done test_pool)) = [L_recv]
   \<and> workers (the (exec one_task_done test_pool)) = [W_recv, W_recv]
   \<and> callers (the (exec one_task_done test_pool)) 1 = Idle
   \<and> shutdownOnce (the (exec one_task_done test_pool)) = Once_new
   \<and> inputLock (the (exec one_task_done test_pool))
   \<and> step (Wait_lock 2) (the (exec one_task_done test_pool)) = None"
  by (simp add: one_task_done_def eval_defs numeral_2_eq_2)

text \<open>
  Claim C4, amended. \<^verbatim>\<open>Wait\<close> closes nothing, sets no channel field and does not panic. A
  call of \<^verbatim>\<open>Wait\<close> passes line 208 exactly when \<^verbatim>\<open>inputLock\<close> is free, passes line 211
  exactly when the in-flight wait group is at zero, and then unlocks and returns; so in a
  state where the lock is free and the counter is zero it returns, leaving the state as
  it was. The lock is free exactly when every forwarder
  started by \<^verbatim>\<open>Run\<close> has finished and no other call of \<^verbatim>\<open>Wait\<close> holds it, and a forwarder
  finishes only after \<^verbatim>\<open>Shutdown\<close> has closed the admission channel: so once \<^verbatim>\<open>Run\<close> has been
  called, no step of \<^verbatim>\<open>Wait\<close> can be taken before that close, whatever the counter is. A
  forwarder that found \<^verbatim>\<open>p.inputQ\<close> nil when it evaluated its range expression never
  finishes: from then on the lock stays held and no call of \<^verbatim>\<open>Wait\<close> passes line 208.
\<close>

theorem Wait_returns_when_unlocked_and_drained:
  assumes "NewPool rt pd c = Inr p" and "exec sched p = Some s" and "panicked s = None"
  shows "(\<forall>l s'. Wait_step l \<and> step l s = Some s' \<longrightarrow>
            inputQ_closed s' = inputQ_closed s \<and> workersQ_closed s' = workersQ_closed s
            \<and> errCh_closed s' = errCh_closed s
            \<and> inputQ_nil s' = inputQ_nil s \<and> workersQ_nil s' = workersQ_nil s
            \<and> panicked s' = None
            \<and> ((\<exists>r. Call_Run r \<in> set sched) \<longrightarrow> inputQ_closed s))
     \<and> (callers s k = Idle \<longrightarrow> (step (Wait_lock k) s \<noteq> None \<longleftrightarrow> \<not> inputLock s))
     \<and> (callers s k = Wt_wait \<longrightarrow> (step (Wait_wait k) s \<noteq> None \<longleftrightarrow> inflightWG s = 0))
     \<and> (callers s k = Wt_unlock \<longrightarrow>
           (\<exists>s'. step (Wait_unlock k) s = Some s' \<and> callers s' k = Idle
                \<and> \<not> inputLock s' \<and> panicked s' = None))
     \<and> (callers s k = Idle \<longrightarrow>
           exec [Wait_lock k, Wait_wait k, Wait_unlock k] s
             = (if \<not> inputLock s \<and> inflightWG s = 0 then Some s else None))
     \<and> (\<not> inputLock s \<longleftrightarrow>
           (\<forall>l<length (lobbies s). lobbies s ! l = L_done)
           \<and> (\<forall>q. \<not> in_Wait (callers s q)))
     \<and> ((\<exists>r. Call_Run r \<in> set sched) \<and> \<not> inputLock s \<longrightarrow> inputQ_closed s)
     \<and> (\<forall>l rest s2. at (lobbies s) l L_nil \<and> exec rest s = Some s2 \<longrightarrow>
           inputLock s2 \<and> step (Wait_lock k) s2 = None)"
proof -
  have inv: "lock_inv s"
    using lock_inv_init [OF assms(1)] assms(2) by (rule lock_inv_exec)
  have own: "lock_owned s"
    using lock_owned_init [OF assms(1)] assms(2) by (rule lock_owned_exec)
  have closed: "inputQ_closed s" if "Call_Run r \<in> set sched" and "\<not> inputLock s" for r
  proof (rule ccontr)
    assume "open": "\<not> inputQ_closed s"
    from assms(2) that(1) have run: "lobbies s \<noteq> []"
      by (intro exec_Run [where r = r]) auto
    from lock_held(1) [OF inv run "open"] that(2) show False by simp
  qed
  have closed': "inputQ_closed s" if "Call_Run r \<in> set sched" and "Wait_step l"
    and "step l s = Some s'" for r l s'
  proof (rule ccontr)
    assume "open": "\<not> inputQ_closed s"
    from assms(2) that(1) have run: "lobbies s \<noteq> []"
      by (intro exec_Run [where r = r]) auto
    from lock_held [OF inv run "open"] Wait_step_enabled [OF that(2,3)]
    show False by blast
  qed
  have a: "inputQ_closed s' = inputQ_closed s \<and> workersQ_closed s' = workersQ_closed s
            \<and> errCh_closed s' = errCh_closed s
            \<and> inputQ_nil s' = inputQ_nil s \<and> workersQ_nil s' = workersQ_nil s
            \<and> panicked s' = None
            \<and> ((\<exists>r. Call_Run r \<in> set sched) \<longrightarrow> inputQ_closed s)"
    if "Wait_step l \<and> step l s = Some s'" for l s'
    using that Wait_step_frame [of l s s'] Wait_step_no_panic [OF inv, of l s']
      closed' [of _ l s'] by blast
  have b1: "step (Wait_lock k) s \<noteq> None \<longleftrightarrow> \<not> inputLock s" if "callers s k = Idle"
    using that assms(3) by (simp add: step_def)
  have b2: "step (Wait_wait k) s \<noteq> None \<longleftrightarrow> inflightWG s = 0" if "callers s k = Wt_wait"
    using that assms(3) by (simp add: step_def)
  have b3: "\<exists>s'. step (Wait_unlock k) s = Some s' \<and> callers s' k = Idle
                \<and> \<not> inputLock s' \<and> panicked s' = None"
    if "callers s k = Wt_unlock"
  proof -
    from that inv have "inputLock s"
      unfolding lock_inv_def in_Wait_def by blast
    with that assms(3) show ?thesis by (simp add: step_def)
  qed
  have d: "inputLock s2 \<and> step (Wait_lock k) s2 = None"
    if "at (lobbies s) l L_nil \<and> exec rest s = Some s2" for l rest s2
  proof -
    from that have ex: "exec rest s = Some s2" and at: "at (lobbies s) l L_nil"
      by simp_all
    from ex at have n: "at (lobbies s2) l L_nil"
      by (rule exec_nil_range)
    from inv ex have inv2: "lock_inv s2"
      by (rule lock_inv_exec)
    from n have "l < length (lobbies s2)" and "lobbies s2 ! l \<noteq> L_done"
      by (simp_all add: at_def)
    with inv2 have "inputLock s2"
      unfolding lock_inv_def by blast
    then show ?thesis by (simp add: step_def)
  qed
  have c1: "\<not> inputLock s \<longleftrightarrow>
           (\<forall>l<length (lobbies s). lobbies s ! l = L_done)
           \<and> (\<forall>q. \<not> in_Wait (callers s q))"
    using inv own by (rule lock_free_iff)
  have c2: "(\<exists>r. Call_Run r \<in> set sched) \<and> \<not> inputLock s \<longrightarrow> inputQ_closed s"
    using closed by blast
  have b4: "callers s k = Idle \<longrightarrow>
           exec [Wait_lock k, Wait_wait k, Wait_unlock k] s
             = (if \<not> inputLock s \<and> inflightWG s = 0 then Some s else None)"
    using Wait_runs [OF assms(3), of k] by blast
  show ?thesis
    apply (intro conjI)
    subgoal using a by blast
    subgoal using b1 by blast
    subgoal using b2 by blast
    subgoal using b3 by blast
    subgoal by (rule b4)
    subgoal by (rule c1)
    subgoal by (rule c2)
    subgoal using d by blast
    done
qed

theorem Wait_returns_when_unlocked_and_drained_witness:
  "exec shutdown_begun test_pool \<noteq> None
   \<and> Call_Run 0 \<in> set shutdown_begun
   \<and> inputQ_closed (the (exec shutdown_begun test_pool))
   \<and> exec [Wait_lock 2, Wait_wait 2, Wait_unlock 2] (the (exec shutdown_begun test_pool))
       = Some (the (exec shutdown_begun test_pool))
   \<and> exec shutdown_first test_pool \<noteq> None
   \<and> at (lobbies (the (exec shutdown_first test_pool))) 0 L_nil
   \<and> inputQ_closed (the (exec shutdown_first test_pool))
   \<and> inflightWG (the (exec shutdown_first test_pool)) = 0
   \<and> step (Wait_lock 2) (the (exec shutdown_first test_pool)) = None"
proof -
  let ?s = "the (exec shutdown_begun test_pool)"
  let ?h = "the (exec shutdown_first test_pool)"
  have e: "exec shutdown_begun test_pool = Some ?s"
    by (simp add: shutdown_begun_def eval_defs)
  have alive: "panicked ?s = None"
    by (simp add: shutdown_begun_def eval_defs)
  have free: "callers ?s 2 = Idle \<and> \<not> inputLock ?s \<and> inflightWG ?s = 0"
    by (simp add: shutdown_begun_def eval_defs)
  have r: "Call_Run 0 \<in> set shutdown_begun"
    by (simp add: shutdown_begun_def)
  note th = Wait_returns_when_unlocked_and_drained [OF test_pool_made e alive, of 2]
  from th have "callers ?s 2 = Idle \<longrightarrow>
      exec [Wait_lock 2, Wait_wait 2, Wait_unlock 2] ?s
        = (if \<not> inputLock ?s \<and> inflightWG ?s = 0 then Some ?s else None)"
    by (elim conjE)
  with free have run: "exec [Wait_lock 2, Wait_wait 2, Wait_unlock 2] ?s = Some ?s"
    by (simp del: exec.simps)
  from th have "(\<exists>r. Call_Run r \<in> set shutdown_begun) \<and> \<not> inputLock ?s \<longrightarrow> inputQ_closed ?s"
    by (elim conjE)
  with r free have cl: "inputQ_closed ?s" by blast
  have e': "exec shutdown_first test_pool = Some ?h"
    by (simp add: shutdown_first_def eval_defs)
  have alive': "panicked ?h = None"
    by (simp add: shutdown_first_def eval_defs)
  have nil: "at (lobbies ?h) 0 L_nil \<and> inputQ_closed ?h \<and> inflightWG ?h = 0"
    by (simp add: shutdown_first_def eval_defs)
  have rest: "exec [] ?h = Some ?h" by simp
  note th' = Wait_returns_when_unlocked_and_drained [OF test_pool_made e' alive', of 2]
  from th' have "\<forall>l rest s2. at (lobbies ?h) l L_nil \<and> exec rest ?h = Some s2 \<longrightarrow>
      inputLock s2 \<and> step (Wait_lock 2) s2 = None"
    by (elim conjE)
  with nil rest have hang: "step (Wait_lock 2) ?h = None" by blast
  from e have "exec shutdown_begun test_pool \<noteq> None"
    by (cases "exec shutdown_begun test_pool") auto
  moreover from e' have "exec shutdown_first test_pool \<noteq> None"
    by (cases "exec shutdown_first test_pool") auto
  ultimately show ?thesis using r cl run nil hang by blast
qed

subsection \<open>The body of Shutdown\<close>
























end
